theory Spec2Isabelle
  imports Complex_Main
begin

section \<open>JavaScript values\<close>

text \<open>
  The scripts handle whatever \<open>JSON.parse\<close> returns. A value is one of the JSON shapes,
  or \<open>undefined\<close> (what reading a missing property gives). Numbers are modelled as
  mathematical integers: record counts, page indices and status codes are integers far
  below \<open>2^53\<close>, where the IEEE doubles of JavaScript are exact; a larger number stands
  for the double that prints with its digits. An object is the list of its properties in
  insertion order.
\<close>

datatype jsval =
    JUndefined
  | JNull
  | JBool bool
  | JNum int
  | JStr string
  | JArr "jsval list"
  | JObj "(string \<times> jsval) list"

text \<open>An exception is represented by its \<open>message\<close>, the only part the scripts read.\<close>

datatype error = Error string

text \<open>The result of \<open>parseInt\<close> and of arithmetic: \<open>NaN\<close> or an integer.\<close>

datatype number = NaN | Num int

definition nullish :: "jsval \<Rightarrow> bool" where
  "nullish x = (x = JUndefined \<or> x = JNull)"

text \<open>
  \<open>x.f\<close> on a value that is not nullish: the own property of an object, or \<open>undefined\<close>.
  The scripts read data fields only; built-in properties such as the \<open>length\<close> of an array
  are modelled where they are used, not through \<open>get\<close>.
\<close>

fun get :: "jsval \<Rightarrow> string \<Rightarrow> jsval" where
  "get (JObj fs) f = (case map_of fs f of Some v \<Rightarrow> v | None \<Rightarrow> JUndefined)"
| "get _ f = JUndefined"

text \<open>\<open>x.f\<close>: reading a property of \<open>null\<close> or \<open>undefined\<close> throws a TypeError.\<close>

definition getprop :: "jsval \<Rightarrow> string \<Rightarrow> error + jsval" where
  "getprop x f = (if nullish x then Inl (Error (''Cannot read properties of null or undefined (reading '' @ f @ '')''))
               else Inr (get x f))"

fun truthy :: "jsval \<Rightarrow> bool" where
  "truthy JUndefined = False"
| "truthy JNull = False"
| "truthy (JBool b) = b"
| "truthy (JNum n) = (n \<noteq> 0)"
| "truthy (JStr s) = (s \<noteq> [])"
| "truthy (JArr _) = True"
| "truthy (JObj _) = True"

text \<open>\<open>xs.map(f)\<close> for a callback that may throw: the first exception ends the map.\<close>

fun mapM :: "('a \<Rightarrow> error + 'b) \<Rightarrow> 'a list \<Rightarrow> error + 'b list" where
  "mapM f [] = Inr []"
| "mapM f (x # xs) =
     (case f x of
        Inl e \<Rightarrow> Inl e
      | Inr y \<Rightarrow> (case mapM f xs of Inl e \<Rightarrow> Inl e | Inr ys \<Rightarrow> Inr (y # ys)))"

section \<open>The built-in \<open>Map\<close>\<close>

text \<open>
  A JavaScript \<open>Map\<close> iterates in insertion order. \<open>set\<close> on a key that is present
  replaces the value and leaves the entry where it is; on a new key it appends the entry.
  The same list with string keys holds the properties of an object.
\<close>

primrec map_set :: "'k \<Rightarrow> 'v \<Rightarrow> ('k \<times> 'v) list \<Rightarrow> ('k \<times> 'v) list" where
  "map_set k v [] = [(k, v)]"
| "map_set k v (p # ps) = (if fst p = k then (k, v) # ps else p # map_set k v ps)"

definition new_Map :: "('k \<times> 'v) list \<Rightarrow> ('k \<times> 'v) list" where
  "new_Map entries = fold (\<lambda>(k, v) m. map_set k v m) entries []"

definition map_values :: "('k \<times> 'v) list \<Rightarrow> 'v list" where
  "map_values m = map snd m"

text \<open>
  A \<open>Map\<close> compares its keys as \<open>SameValueZero\<close> does: strings, numbers, booleans, \<open>null\<close>
  and \<open>undefined\<close> by value, arrays and objects by identity. \<open>JSON.parse\<close> builds a new
  array or object at every place of the text, so in parsed data an array or object is
  identical to nothing but itself, however equal the contents.
\<close>

definition primitive :: "jsval \<Rightarrow> bool" where
  "primitive v = (case v of JArr xs \<Rightarrow> False | JObj fs \<Rightarrow> False | _ \<Rightarrow> True)"

text \<open>
  The key of the \<open>i\<close>-th entry handed to a \<open>Map\<close>, as the \<open>Map\<close> tells keys apart: a
  primitive is its value; an array or object is the one held by the \<open>i\<close>-th entry and is
  named by that position.
\<close>

definition map_key :: "nat \<Rightarrow> jsval \<Rightarrow> jsval + nat" where
  "map_key i k = (if primitive k then Inl k else Inr i)"

definition identify :: "(jsval \<times> 'v) list \<Rightarrow> ((jsval + nat) \<times> 'v) list" where
  "identify entries = map (\<lambda>(i, (k, v)). (map_key i k, v)) (enumerate 0 entries)"

text \<open>
  \<open>m.get(k)\<close> for a key \<open>k\<close> read from other data than the entries of the \<open>Map\<close>: an
  array or object is then no key of the \<open>Map\<close>.
\<close>

definition map_get :: "((jsval + nat) \<times> 'v) list \<Rightarrow> jsval \<Rightarrow> 'v option" where
  "map_get m k = (if primitive k then map_of m (Inl k) else None)"

section \<open>\<open>list_tthc.js\<close>: removing duplicates by \<open>TTHC_MA\<close>\<close>

definition TTHC_MA :: "jsval \<Rightarrow> jsval" where
  "TTHC_MA item = get item ''TTHC_MA''"

text \<open>The callback \<open>item => [item.TTHC_MA, item]\<close>.\<close>

definition keyed :: "jsval \<Rightarrow> error + (jsval \<times> jsval)" where
  "keyed item = (case getprop item ''TTHC_MA'' of Inl e \<Rightarrow> Inl e | Inr k \<Rightarrow> Inr (k, item))"

text \<open>
  \<open>Array.from(new Map(allTTHC.map(item => [item.TTHC_MA, item])).values())\<close>
\<close>

definition uniqueTTHC :: "jsval list \<Rightarrow> error + jsval list" where
  "uniqueTTHC allTTHC =
     (case mapM keyed allTTHC of
        Inl e \<Rightarrow> Inl e
      | Inr entries \<Rightarrow> Inr (map_values (new_Map (identify entries))))"

text \<open>
  The keys of a list in the order of their first occurrence, each once: what "ordered by
  earliest position" means for the output of the duplicate removal.
\<close>

fun first_occurrences :: "'a list \<Rightarrow> 'a list" where
  "first_occurrences [] = []"
| "first_occurrences (k # ks) = k # filter (\<lambda>x. x \<noteq> k) (first_occurrences ks)"

text \<open>
  The keys of the records of a collection as the \<open>Map\<close> tells them apart, in the order of
  the records, and the latest record of the collection that carries a given key.
\<close>

definition record_keys :: "jsval list \<Rightarrow> (jsval + nat) list" where
  "record_keys xs = map (\<lambda>(i, x). map_key i (TTHC_MA x)) (enumerate 0 xs)"

definition last_with :: "jsval + nat \<Rightarrow> jsval list \<Rightarrow> jsval" where
  "last_with k xs = snd (last (filter (\<lambda>(i, x). map_key i (TTHC_MA x) = k) (enumerate 0 xs)))"

section \<open>Numbers, \<open>parseInt\<close> and \<open>Math.ceil\<close>\<close>

definition digit_char :: "nat \<Rightarrow> char" where
  "digit_char n = char_of (48 + n)"

text \<open>The decimal digits of an integer that is not negative.\<close>

function show_digits :: "int \<Rightarrow> string" where
  "show_digits n = (if n < 10 then [digit_char (nat n)]
                    else show_digits (n div 10) @ [digit_char (nat (n mod 10))])"
  by pat_completeness auto
termination
  by (relation "measure nat") auto

declare show_digits.simps [simp del]

definition show_nat :: "nat \<Rightarrow> string" where
  "show_nat n = show_digits (int n)"

text \<open>
  Conversion of a number to a string. An integer below \<open>10^21\<close> prints as its digits;
  from there on JavaScript prints scientific notation: the first digit, after a point the
  digits that follow up to the last one that is not 0, and the exponent.
\<close>

definition show_int :: "int \<Rightarrow> string" where
  "show_int i =
     (let ds = show_digits \<bar>i\<bar>;
          sig = rev (dropWhile (\<lambda>c. c = CHR ''0'') (rev ds));
          body = (if \<bar>i\<bar> < 10 ^ 21 then ds
                  else take 1 sig @ (if length sig \<le> 1 then [] else CHR ''.'' # drop 1 sig)
                         @ ''e+'' @ show_nat (length ds - 1))
      in if i < 0 then CHR ''-'' # body else body)"

text \<open>Conversion to a string, as a template literal and \<open>parseInt\<close> do it.\<close>

fun join_commas :: "string list \<Rightarrow> string" where
  "join_commas [] = []"
| "join_commas [s] = s"
| "join_commas (s # t # ts) = s @ '','' @ join_commas (t # ts)"

fun js_toString :: "jsval \<Rightarrow> string" where
  "js_toString JUndefined = ''undefined''"
| "js_toString JNull = ''null''"
| "js_toString (JBool b) = (if b then ''true'' else ''false'')"
| "js_toString (JNum n) = show_int n"
| "js_toString (JStr s) = s"
| "js_toString (JArr xs) = join_commas (map (\<lambda>x. if nullish x then [] else js_toString x) xs)"
| "js_toString (JObj fs) = ''[object Object]''"

definition is_space :: "char \<Rightarrow> bool" where
  "is_space c = (of_char c \<in> {9, 10, 11, 12, 13, 32 :: nat})"

text \<open>The value of a digit in radix 10 or 16, if the character is one.\<close>

definition digit_of :: "nat \<Rightarrow> char \<Rightarrow> nat option" where
  "digit_of radix c =
     (let n = of_char c :: nat;
          d = (if 48 \<le> n \<and> n \<le> 57 then Some (n - 48)
               else if 97 \<le> n \<and> n \<le> 102 then Some (n - 87)
               else if 65 \<le> n \<and> n \<le> 70 then Some (n - 55)
               else None)
      in case d of None \<Rightarrow> None | Some v \<Rightarrow> if v < radix then Some v else None)"

text \<open>The longest prefix of digits, and its value.\<close>

fun digits_prefix :: "nat \<Rightarrow> string \<Rightarrow> nat list" where
  "digits_prefix radix [] = []"
| "digits_prefix radix (c # cs) =
     (case digit_of radix c of None \<Rightarrow> [] | Some d \<Rightarrow> d # digits_prefix radix cs)"

definition digits_value :: "nat \<Rightarrow> nat list \<Rightarrow> nat" where
  "digits_value radix ds = foldl (\<lambda>acc d. acc * radix + d) 0 ds"

definition strip_sign :: "string \<Rightarrow> bool \<times> string" where
  "strip_sign s = (case s of
                     c # cs \<Rightarrow> if c = CHR ''-'' then (True, cs)
                              else if c = CHR ''+'' then (False, cs) else (False, s)
                   | [] \<Rightarrow> (False, s))"

definition strip_0x :: "string \<Rightarrow> nat \<times> string" where
  "strip_0x s = (case s of
                   c # d # cs \<Rightarrow> if c = CHR ''0'' \<and> (d = CHR ''x'' \<or> d = CHR ''X'') then (16, cs) else (10, s)
                 | _ \<Rightarrow> (10, s))"

text \<open>
  \<open>parseInt(s)\<close> without a radix: leading white space, a sign, an optional \<open>0x\<close>, then
  the longest run of digits; \<open>NaN\<close> when there is no digit.
\<close>

definition parseInt_string :: "string \<Rightarrow> number" where
  "parseInt_string s =
     (let (neg, s1) = strip_sign (dropWhile is_space s);
          (radix, s2) = strip_0x s1;
          ds = digits_prefix radix s2
      in if ds = [] then NaN
         else Num (if neg then - int (digits_value radix ds) else int (digits_value radix ds)))"

text \<open>
  \<open>parseInt(x)\<close> converts its argument to a string first and reads that. So a number
  from \<open>10^21\<close> on is read up to the point or the \<open>e\<close> of its scientific notation, an
  array up to the comma after its first element, and \<open>undefined\<close>, \<open>null\<close>, booleans
  and objects, which print as words, give \<open>NaN\<close>.
\<close>

definition parseInt :: "jsval \<Rightarrow> number" where
  "parseInt x = parseInt_string (js_toString x)"

text \<open>
  \<open>Math.ceil(a / b)\<close> for an integer \<open>a\<close> and a page size \<open>b\<close>. Every script divides by
  a positive constant; division by zero (an infinite quotient) is outside the model and
  is given \<open>NaN\<close>.
\<close>

fun ceil_div :: "number \<Rightarrow> int \<Rightarrow> number" where
  "ceil_div NaN b = NaN"
| "ceil_div (Num a) b = (if b = 0 then NaN else Num (- ((- a) div b)))"

text \<open>\<open>x || y\<close> on values.\<close>

definition js_or :: "jsval \<Rightarrow> jsval \<Rightarrow> jsval" where
  "js_or x y = (if truthy x then x else y)"

text \<open>The page indices of \<open>for (p = from; p <= to; p++)\<close>: none when \<open>to\<close> is \<open>NaN\<close>.\<close>

fun pages_upto :: "int \<Rightarrow> number \<Rightarrow> int list" where
  "pages_upto from NaN = []"
| "pages_upto from (Num to) = [from..to]"

section \<open>The remote source\<close>

text \<open>
  What comes back from one HTTP request: the connection fails, or a response arrives with
  a status code and a body that is JSON or is not.
\<close>

datatype payload = Malformed string | Parsed jsval

datatype reply = NetworkError string | Response nat payload

text \<open>
  The remote source answers the \<open>k\<close>-th page request of a run (counted from 0) for page
  index \<open>p\<close> with \<open>remote k p\<close>. A run keeps the list of the page indices it has requested.
\<close>

type_synonym remote = "nat \<Rightarrow> int \<Rightarrow> reply"

definition ok :: "nat \<Rightarrow> bool" where
  "ok status = (200 \<le> status \<and> status \<le> 299)"

section \<open>\<open>DecisionCrawler\<close>\<close>



text \<open>
  \<open>fetchPage\<close>: one POST; a non-2xx status throws, an unparseable body makes
  \<open>response.json()\<close> throw, a network error makes \<open>fetch\<close> throw; the \<open>catch\<close> logs
  and rethrows the same error.
\<close>

definition fetchPage :: "remote \<Rightarrow> int list \<Rightarrow> int \<Rightarrow> (error + jsval) \<times> int list" where
  "fetchPage remote sent pageIndex =
     ((case remote (length sent) pageIndex of
         NetworkError msg \<Rightarrow> Inl (Error msg)
       | Response status body \<Rightarrow>
           if \<not> ok status then Inl (Error (''HTTP error! status: '' @ show_nat status))
           else (case body of Malformed msg \<Rightarrow> Inl (Error msg) | Parsed data \<Rightarrow> Inr data)),
      sent @ [pageIndex])"




section \<open>\<open>list_tthc.js\<close>\<close>

text \<open>
  \<open>fetchTTHC\<close>: one POST with \<open>https.request\<close>. Only status 200 is a success; a body
  that is not JSON rejects with a wrapped message, any other status rejects with the
  status; the \<open>error\<close> event of the request rejects with its own error.
\<close>

definition fetchTTHC :: "remote \<Rightarrow> int list \<Rightarrow> int \<Rightarrow> (error + jsval) \<times> int list" where
  "fetchTTHC remote sent pageIndex =
     ((case remote (length sent) pageIndex of
         NetworkError msg \<Rightarrow> Inl (Error msg)
       | Response status body \<Rightarrow>
           if status = 200
           then (case body of
                   Malformed msg \<Rightarrow> Inl (Error (''JSON parse error: '' @ msg))
                 | Parsed json \<Rightarrow> Inr json)
           else Inl (Error (''HTTP '' @ show_nat status))),
      sent @ [pageIndex])"

text \<open>
  The command line gives \<open>limit\<close>: \<open>null\<close> without \<open>--limit\<close> (here \<open>None\<close>), otherwise
  the result of \<open>parseInt\<close>. The script only ever tests \<open>limit\<close> for truthiness before
  using it; \<open>limit_value\<close> is the number when it is truthy.
\<close>

fun limit_value :: "number option \<Rightarrow> int option" where
  "limit_value None = None"
| "limit_value (Some NaN) = None"
| "limit_value (Some (Num n)) = (if n = 0 then None else Some n)"

record tthc_run =
  requested :: "int list"
  allTTHC :: "jsval list"

text \<open>
  The loop over the remaining pages. An empty or non-array page and a reached limit
  \<open>break\<close>; a failed fetch is caught and the loop goes on with the next index.
\<close>

fun tthc_loop :: "remote \<Rightarrow> number option \<Rightarrow> int list \<Rightarrow> tthc_run \<Rightarrow> tthc_run" where
  "tthc_loop remote limit [] s = s"
| "tthc_loop remote limit (pageIndex # later) s =
     (case fetchTTHC remote (requested s) pageIndex of
        (Inl err, sent') \<Rightarrow> tthc_loop remote limit later (s\<lparr>requested := sent'\<rparr>)
      | (Inr pageData, sent') \<Rightarrow>
          (case pageData of
             JArr (x # xs) \<Rightarrow>
               (let s' = \<lparr>requested = sent', allTTHC = allTTHC s @ (x # xs)\<rparr> in
                case limit_value limit of
                  None \<Rightarrow> tthc_loop remote limit later s'
                | Some l \<Rightarrow> if int (length (allTTHC s')) \<ge> l then s'
                            else tthc_loop remote limit later s')
           | _ \<Rightarrow> s\<lparr>requested := sent'\<rparr>))"

text \<open>\<open>xs.slice(0, n)\<close>: a negative \<open>n\<close> counts from the end.\<close>

definition slice0 :: "'a list \<Rightarrow> int \<Rightarrow> 'a list" where
  "slice0 xs n = (if n < 0 then take (nat (int (length xs) + n)) xs else take (nat n) xs)"

text \<open>
  How \<open>main\<close> ends: it returns early without writing anything, it exits with status 1
  from its outer \<open>catch\<close>, or it writes \<open>finalResult\<close> to the result file. Creating the
  directory and writing the file are taken to succeed; the pauses between requests have
  no effect on the result and are left out.
\<close>

datatype outcome = NoData | Fatal error | Saved "jsval list"

definition tthc_main :: "int \<Rightarrow> number option \<Rightarrow> remote \<Rightarrow> outcome \<times> tthc_run" where
  "tthc_main PAGE_SIZE limit remote =
     (case fetchTTHC remote [] 1 of
        (Inl err, sent1) \<Rightarrow> (Fatal err, \<lparr>requested = sent1, allTTHC = []\<rparr>)
      | (Inr firstPage, sent1) \<Rightarrow>
          (case firstPage of
             JArr (first # rest) \<Rightarrow>
               (case getprop first ''TOTAL_RECORDS'' of
                  Inl err \<Rightarrow> (Fatal err, \<lparr>requested = sent1, allTTHC = []\<rparr>)
                | Inr reported \<Rightarrow>
                    (let totalRecords = parseInt (js_or reported (JNum 0));
                         maxRecords = (case limit_value limit of Some l \<Rightarrow> Num l | None \<Rightarrow> totalRecords);
                         maxPages = ceil_div maxRecords PAGE_SIZE;
                         s = tthc_loop remote limit (pages_upto 2 maxPages)
                               \<lparr>requested = sent1, allTTHC = first # rest\<rparr>
                     in case uniqueTTHC (allTTHC s) of
                          Inl err \<Rightarrow> (Fatal err, s)
                        | Inr unique \<Rightarrow>
                            (Saved (case limit_value limit of Some l \<Rightarrow> slice0 unique l | None \<Rightarrow> unique), s)))
           | _ \<Rightarrow> (NoData, \<lparr>requested = sent1, allTTHC = []\<rparr>)))"

section \<open>\<open>crawler.js\<close> (emohbackup.moh.gov.vn)\<close>

text \<open>\<open>d?.f\<close>\<close>

definition opt_chain :: "jsval \<Rightarrow> string \<Rightarrow> jsval" where
  "opt_chain d f = (if nullish d then JUndefined else get d f)"

record page =
  docs :: jsval
  nTotal :: jsval

text \<open>
  \<open>fetchPage(page, size)\<close> of \<open>crawler.js\<close>: every failure inside the \<open>try\<close> (network,
  status, body, a \<open>null\<close> payload) is logged and answered with an empty page.
\<close>

definition emoh_fetchPage :: "remote \<Rightarrow> int list \<Rightarrow> int \<Rightarrow> page \<times> int list" where
  "emoh_fetchPage remote sent p =
     ((case remote (length sent) p of
         NetworkError msg \<Rightarrow> \<lparr>docs = JArr [], nTotal = JNum 0\<rparr>
       | Response status body \<Rightarrow>
           if \<not> ok status then \<lparr>docs = JArr [], nTotal = JNum 0\<rparr>
           else (case body of
                   Malformed msg \<Rightarrow> \<lparr>docs = JArr [], nTotal = JNum 0\<rparr>
                 | Parsed data \<Rightarrow>
                     (case getprop data ''data'' of
                        Inl err \<Rightarrow> \<lparr>docs = JArr [], nTotal = JNum 0\<rparr>
                      | Inr d \<Rightarrow> \<lparr>docs = js_or (opt_chain d ''lstResult'') (JArr []),
                                  nTotal = js_or (opt_chain d ''nTotal'') (JNum 0)\<rparr>))),
      sent @ [p])"





text \<open>The pages of \<open>for (p = from; p < to; p++)\<close>.\<close>

fun pages_below :: "int \<Rightarrow> number \<Rightarrow> int list" where
  "pages_below from NaN = []"
| "pages_below from (Num to) = [from..to - 1]"


text \<open>
  Downloads. The attachment server answers the \<open>k\<close>-th download request of a run for a
  URL with a failure or with a status and the bytes. The world a download acts on is the
  list of the URLs requested so far and the files on disk, by path. Directories are not
  tracked: \<open>mkdirSync\<close> with \<open>recursive\<close> and the write of a file are taken to succeed.
  \<open>path.join\<close> is modelled without its normalisation of \<open>..\<close> and repeated separators.
\<close>

datatype download = DownloadError string | Download nat string

type_synonym attach_remote = "nat \<Rightarrow> string \<Rightarrow> download"













section \<open>Reading a run against the replies it received\<close>

text \<open>
  The replies to the requests for the pages \<open>ps\<close>, made in this order when \<open>n\<close> requests
  went before.
\<close>

fun replies :: "remote \<Rightarrow> nat \<Rightarrow> int list \<Rightarrow> reply list" where
  "replies remote n [] = []"
| "replies remote n (p # ps) = remote n p # replies remote (Suc n) ps"

text \<open>
  The records a reply carries: the elements of the array of a successful response,
  nothing otherwise. What counts as a successful status differs between the scripts.
\<close>

definition page_records :: "(nat \<Rightarrow> bool) \<Rightarrow> reply \<Rightarrow> jsval list" where
  "page_records success r =
     (case r of
        Response status (Parsed (JArr xs)) \<Rightarrow> if success status then xs else []
      | _ \<Rightarrow> [])"

text \<open>A reply on which \<open>fetchTTHC\<close> rejects.\<close>

definition failed200 :: "reply \<Rightarrow> bool" where
  "failed200 r = (\<forall>json. r \<noteq> Response 200 (Parsed json))"

text \<open>
  \<open>Array.isArray(pageData) && pageData.length > 0\<close>: the page carries records. The
  loops stop on, or skip, a page that was fetched but does not.
\<close>

definition has_records :: "jsval \<Rightarrow> bool" where
  "has_records pageData = (case pageData of JArr (x # xs) \<Rightarrow> True | _ \<Rightarrow> False)"

text \<open>
  A transport-level failure of a request made with \<open>fetch\<close>: no response, a status
  outside 200-299, or a body that is not JSON.
\<close>

definition transport_failure :: "reply \<Rightarrow> bool" where
  "transport_failure r =
     (case r of
        NetworkError msg \<Rightarrow> True
      | Response status body \<Rightarrow>
          \<not> ok status \<or> (case body of Malformed msg \<Rightarrow> True | Parsed data \<Rightarrow> False))"

section \<open>\<open>fetch_details.js\<close> (vanban.chinhphu.vn): the download phase\<close>






section \<open>\<open>fetch_details.js\<close> (vanban.chinhphu.vn): the detail phase\<close>

text \<open>
  \<open>fetchHTML(url)\<close>: one GET; status 200 resolves with the body, any other status and a
  network error reject. The site answers like the attachment server: by request number
  and URL.
\<close>

definition fetchHTML :: "attach_remote \<Rightarrow> string list \<Rightarrow> string \<Rightarrow> (error + string) \<times> string list" where
  "fetchHTML site sent url =
     ((case site (length sent) url of
         DownloadError msg \<Rightarrow> Inl (Error msg)
       | Download status body \<Rightarrow>
           if status = 200 then Inr body
           else Inl (Error (''HTTP '' @ show_nat status @ '': '' @ url))),
      sent @ [url])"

text \<open>
  \<open>parseDetailHTML\<close> starts its result with \<open>PAGE_ID\<close>, \<open>DOC_ID\<close> and \<open>DETAIL_URL\<close> and adds
  what its regular expressions find in the page (\<open>TITLE\<close>, \<open>CODE\<close>, \<dots>, \<open>ATTACHMENTS\<close>).
  The regular expressions are not modelled: the fields they extract from a page are the
  parameter \<open>extract\<close>.
\<close>

definition parseDetailHTML ::
  "(string \<Rightarrow> (string \<times> jsval) list) \<Rightarrow> string \<Rightarrow> jsval \<Rightarrow> jsval \<Rightarrow> jsval" where
  "parseDetailHTML extract html pageId docId =
     JObj ([(''PAGE_ID'', pageId), (''DOC_ID'', docId),
            (''DETAIL_URL'', JStr (''https://vanban.chinhphu.vn/?pageid='' @ js_toString pageId
                                    @ ''&docid='' @ js_toString docId))]
           @ extract html)"


section \<open>\<open>decision_details.js\<close>\<close>


















text \<open>The URL of the detail page of a document, and the record phase 1 of
  \<open>fetch_details.js\<close> produces for it from the site's answer.\<close>

definition doc_url :: "jsval \<Rightarrow> string" where
  "doc_url doc = ''https://vanban.chinhphu.vn/?pageid='' @ js_toString (get doc ''PAGE_ID'')
                   @ ''&docid='' @ js_toString (get doc ''DOC_ID'')"

definition detail_of :: "(string \<Rightarrow> (string \<times> jsval) list) \<Rightarrow> (string \<Rightarrow> download) \<Rightarrow> jsval \<Rightarrow> jsval" where
  "detail_of extract answer doc =
     (case fst (fetchHTML (\<lambda>k. answer) [] (doc_url doc)) of
        Inl (Error msg) \<Rightarrow> JObj [(''PAGE_ID'', get doc ''PAGE_ID''), (''DOC_ID'', get doc ''DOC_ID''),
                                (''DETAIL_URL'', JStr (doc_url doc)), (''ERROR'', JStr msg)]
      | Inr html \<Rightarrow> parseDetailHTML extract html (get doc ''PAGE_ID'') (get doc ''DOC_ID''))"

fun details :: "(string \<Rightarrow> (string \<times> jsval) list) \<Rightarrow> attach_remote \<Rightarrow> nat \<Rightarrow> jsval list \<Rightarrow> jsval list" where
  "details extract site n [] = []"
| "details extract site n (d # ds) = detail_of extract (site n) d # details extract site (Suc n) ds"



section \<open>Properties of the \<open>Map\<close> model\<close>

lemma keys_map_set:
  "map fst (map_set k v m) = (if k \<in> fst ` set m then map fst m else map fst m @ [k])"
  by (induction m) auto

lemma keyset_map_set: "fst ` set (map_set k v m) = insert k (fst ` set m)"
  by (induction m) auto

lemma map_of_map_set: "map_of (map_set k v m) = (map_of m)(k \<mapsto> v)"
  by (induction m) (auto simp: fun_eq_iff)

lemma set_map_set: "set (map_set k v m) \<subseteq> insert (k, v) (set m)"
  by (induction m) auto

lemma map_set_new: "k \<notin> fst ` set m \<Longrightarrow> map_set k v m = m @ [(k, v)]"
  by (induction m) auto

lemma filter_map_set_other:
  "\<not> Q k \<Longrightarrow> filter (\<lambda>p. Q (fst p)) (map_set k v m) = filter (\<lambda>p. Q (fst p)) m"
  by (induction m) auto

lemma filter_absorb:
  "k \<in> S \<Longrightarrow> filter (\<lambda>x. x \<noteq> k \<and> x \<notin> S) zs = filter (\<lambda>x. x \<notin> S) zs"
  by (induction zs) auto

lemma filter_insert:
  "filter (\<lambda>x. x \<notin> insert k S) zs = filter (\<lambda>x. x \<notin> S) (filter (\<lambda>x. x \<noteq> k) zs)"
  by (induction zs) auto

lemma keys_fold_map_set:
  "map fst (fold (\<lambda>(k, v) m. map_set k v m) es m) =
     map fst m @ filter (\<lambda>k. k \<notin> fst ` set m) (first_occurrences (map fst es))"
proof (induction es arbitrary: m)
  case Nil
  then show ?case by simp
next
  case (Cons e es)
  obtain k v where e: "e = (k, v)" by (cases e)
  let ?rest = "first_occurrences (map fst es)"
  have "map fst (fold (\<lambda>(k, v) m. map_set k v m) (e # es) m) =
        map fst (map_set k v m) @ filter (\<lambda>x. x \<notin> fst ` set (map_set k v m)) ?rest"
    by (simp add: e Cons.IH)
  also have "\<dots> = map fst m @ filter (\<lambda>x. x \<notin> fst ` set m) (k # filter (\<lambda>x. x \<noteq> k) ?rest)"
  proof (cases "k \<in> fst ` set m")
    case True
    then have "insert k (fst ` set m) = fst ` set m" by auto
    with True show ?thesis
      by (simp add: keys_map_set keyset_map_set filter_absorb)
  next
    case False
    then show ?thesis
      by (simp add: keys_map_set keyset_map_set filter_insert)
  qed
  finally show ?case by (simp add: e)
qed

lemma map_add_upd_left: "m(k \<mapsto> v) ++ r = m ++ ([k \<mapsto> v] ++ r)"
  by (rule ext) (simp add: map_add_def split: option.splits)

lemma map_of_fold_map_set:
  "map_of (fold (\<lambda>(k, v) m. map_set k v m) es m) = map_of m ++ map_of (rev es)"
proof (induction es arbitrary: m)
  case Nil
  then show ?case by simp
next
  case (Cons e es)
  obtain k v where e: "e = (k, v)" by (cases e)
  have "fold (\<lambda>(k, v) m. map_set k v m) (e # es) m
          = fold (\<lambda>(k, v) m. map_set k v m) es (map_set k v m)"
    by (simp add: e)
  then have "map_of (fold (\<lambda>(k, v) m. map_set k v m) (e # es) m)
          = map_of (map_set k v m) ++ map_of (rev es)"
    by (simp only: Cons.IH)
  also have "\<dots> = (map_of m)(k \<mapsto> v) ++ map_of (rev es)"
    by (simp only: map_of_map_set)
  also have "\<dots> = map_of m ++ ([k \<mapsto> v] ++ map_of (rev es))"
    by (rule map_add_upd_left)
  also have "[k \<mapsto> v] ++ map_of (rev es) = map_of (rev (e # es))"
    by (simp add: e)
  finally show ?case .
qed

text \<open>Entries whose keys occur once only pass through a \<open>Map\<close> as they are.\<close>

lemma set_fold_map_set:
  "set (fold (\<lambda>(k, v) m. map_set k v m) es m) \<subseteq> set m \<union> set es"
proof (induction es arbitrary: m)
  case Nil
  then show ?case by simp
next
  case (Cons e es)
  obtain k v where e: "e = (k, v)" by (cases e)
  have "set (fold (\<lambda>(k, v) m. map_set k v m) (e # es) m) \<subseteq> set (map_set k v m) \<union> set es"
    using Cons.IH [of "map_set k v m"] by (simp add: e)
  also have "\<dots> \<subseteq> set m \<union> set (e # es)"
    using set_map_set [of k v m] by (auto simp: e)
  finally show ?case .
qed

lemma filter_fold_map_set:
  assumes "distinct (filter Q (map fst es))"
    and "\<forall>k\<in>set (map fst es). Q k \<longrightarrow> k \<notin> fst ` set m"
  shows "filter (\<lambda>p. Q (fst p)) (fold (\<lambda>(k, v) m. map_set k v m) es m)
           = filter (\<lambda>p. Q (fst p)) m @ filter (\<lambda>p. Q (fst p)) es"
  using assms
proof (induction es arbitrary: m)
  case Nil
  then show ?case by simp
next
  case (Cons e es)
  obtain k v where e: "e = (k, v)" by (cases e)
  let ?m = "map_set k v m"
  have d: "distinct (filter Q (map fst es))"
    using Cons.prems(1) by (simp add: e split: if_splits)
  have fresh: "\<forall>j\<in>set (map fst es). Q j \<longrightarrow> j \<notin> fst ` set ?m"
  proof (intro ballI impI)
    fix j
    assume j: "j \<in> set (map fst es)" and q: "Q j"
    have "j \<notin> fst ` set m"
      using Cons.prems(2) j q by auto
    moreover have "j \<noteq> k"
    proof
      assume "j = k"
      with q j Cons.prems(1) show False by (simp add: e)
    qed
    ultimately show "j \<notin> fst ` set ?m"
      by (simp add: keyset_map_set)
  qed
  have step: "filter (\<lambda>p. Q (fst p)) ?m = filter (\<lambda>p. Q (fst p)) m @ filter (\<lambda>p. Q (fst p)) [e]"
  proof (cases "Q k")
    case True
    then have "k \<notin> fst ` set m"
      using Cons.prems(2) by (simp add: e)
    then show ?thesis by (simp add: map_set_new e)
  next
    case False
    then show ?thesis by (simp add: filter_map_set_other e)
  qed
  have "filter (\<lambda>p. Q (fst p)) (fold (\<lambda>(k, v) m. map_set k v m) (e # es) m)
          = filter (\<lambda>p. Q (fst p)) ?m @ filter (\<lambda>p. Q (fst p)) es"
    using Cons.IH [OF d fresh] by (simp add: e)
  with step show ?case by simp
qed

lemma set_first_occurrences: "set (first_occurrences ks) = set ks"
  by (induction ks) auto

lemma distinct_first_occurrences: "distinct (first_occurrences ks)"
  by (induction ks) (auto simp: set_first_occurrences)

lemma first_occurrences_distinct: "distinct ks \<Longrightarrow> first_occurrences ks = ks"
proof (induction ks)
  case Nil
  then show ?case by simp
next
  case (Cons k ks)
  then have "filter (\<lambda>x. x \<noteq> k) ks = ks"
    by (auto intro: filter_True)
  with Cons show ?case by simp
qed

lemma first_occurrences_map_inj:
  "inj g \<Longrightarrow> first_occurrences (map g ks) = map g (first_occurrences ks)"
proof (induction ks)
  case Nil
  then show ?case by simp
next
  case (Cons k ks)
  have "filter (\<lambda>x. x \<noteq> g k) (map g (first_occurrences ks))
          = map g (filter (\<lambda>x. x \<noteq> k) (first_occurrences ks))"
    using Cons.prems by (simp add: filter_map comp_def inj_eq)
  with Cons show ?case by simp
qed

lemma values_distinct:
  assumes "distinct (map fst al)"
  shows "map snd al = map (\<lambda>k. the (map_of al k)) (map fst al)"
proof -
  have "snd p = the (map_of al (fst p))" if "p \<in> set al" for p
  proof -
    have "map_of al (fst p) = Some (snd p)"
      using assms that by (intro map_of_is_SomeI) simp_all
    then show ?thesis by simp
  qed
  then show ?thesis by (simp add: comp_def)
qed

lemma map_of_rev_keyed:
  "map_of (rev (map (\<lambda>z. (f z, h z)) zs)) k =
     (if k \<in> f ` set zs then Some (h (last (filter (\<lambda>z. f z = k) zs))) else None)"
proof (induction zs rule: rev_induct)
  case Nil
  then show ?case by simp
next
  case (snoc z zs)
  then show ?case by (simp add: image_iff)
qed

lemma values_new_Map_keyed:
  "map_values (new_Map (map (\<lambda>z. (f z, h z)) zs)) =
     map (\<lambda>k. h (last (filter (\<lambda>z. f z = k) zs))) (first_occurrences (map f zs))"
proof -
  let ?es = "map (\<lambda>z. (f z, h z)) zs"
  let ?al = "new_Map ?es"
  have keys: "map fst ?al = first_occurrences (map f zs)"
    by (simp add: new_Map_def keys_fold_map_set comp_def)
  then have dist: "distinct (map fst ?al)"
    by (simp add: distinct_first_occurrences)
  have look: "map_of ?al k = Some (h (last (filter (\<lambda>z. f z = k) zs)))" if "k \<in> f ` set zs" for k
    using that by (simp add: new_Map_def map_of_fold_map_set map_of_rev_keyed)
  have "map snd ?al = map (\<lambda>k. the (map_of ?al k)) (first_occurrences (map f zs))"
    using values_distinct [OF dist] keys by simp
  also have "\<dots> = map (\<lambda>k. h (last (filter (\<lambda>z. f z = k) zs))) (first_occurrences (map f zs))"
    by (rule map_cong) (simp_all add: set_first_occurrences look)
  finally show ?thesis by (simp add: map_values_def)
qed

lemma filter_eq_distinct:
  "distinct ds \<Longrightarrow> k \<in> set ds \<Longrightarrow> filter (\<lambda>x. x = k) ds = [k]"
  by (induction ds) (auto simp: filter_empty_conv)

lemma filter_key_distinct:
  assumes "distinct (map g zs)" and "z \<in> set zs"
  shows "filter (\<lambda>y. g y = g z) zs = [z]"
  using assms
proof (induction zs)
  case Nil
  then show ?case by simp
next
  case (Cons a zs)
  show ?case
  proof (cases "a = z")
    case True
    have "g z \<notin> g ` set zs"
      using Cons.prems(1) True by simp
    then have "\<forall>y\<in>set zs. g y \<noteq> g z"
      by (metis imageI)
    then have "filter (\<lambda>y. g y = g z) zs = []"
      by (simp add: filter_empty_conv)
    with True show ?thesis by simp
  next
    case False
    with Cons.prems have "z \<in> set zs" and "g a \<noteq> g z"
      by auto
    with Cons show ?thesis by simp
  qed
qed

section \<open>Properties of the duplicate removal\<close>

lemma map_key_Inl [simp]: "map_key i v = Inl k \<longleftrightarrow> primitive v \<and> v = k"
  by (simp add: map_key_def)

lemma Inl_map_key [simp]: "Inl k = map_key i v \<longleftrightarrow> primitive v \<and> v = k"
  by (auto simp: map_key_def)

lemma Inr_map_key [simp]: "Inr j = map_key i v \<longleftrightarrow> \<not> primitive v \<and> i = j"
  by (auto simp: map_key_def)

lemma map_key_Inr [simp]: "map_key i v = Inr j \<longleftrightarrow> \<not> primitive v \<and> i = j"
  by (simp add: map_key_def)

lemma record_keys_alt:
  "record_keys xs = map (\<lambda>z. map_key (fst z) (TTHC_MA (snd z))) (enumerate 0 xs)"
  by (simp add: record_keys_def case_prod_unfold)

lemma last_with_alt:
  "last_with k xs = snd (last (filter (\<lambda>z. map_key (fst z) (TTHC_MA (snd z)) = k) (enumerate 0 xs)))"
  by (simp add: last_with_def case_prod_unfold)

lemma map_snd_enumerate_fun: "map (\<lambda>z. g (snd z)) (enumerate n xs) = map g xs"
  by (induction xs arbitrary: n) simp_all

lemma enumerate_map_snd:
  "enumerate n (map g xs) = map (\<lambda>(i, x). (i, g x)) (enumerate n xs)"
  by (induction xs arbitrary: n) simp_all

lemma mapM_keyed:
  "mapM keyed xs = (if \<exists>x\<in>set xs. nullish x
                    then Inl (Error (''Cannot read properties of null or undefined (reading TTHC_MA)''))
                    else Inr (map (\<lambda>x. (TTHC_MA x, x)) xs))"
  by (induction xs) (auto simp: keyed_def getprop_def TTHC_MA_def)

lemma identify_keyed:
  "identify (map (\<lambda>x. (TTHC_MA x, x)) xs)
     = map (\<lambda>z. (map_key (fst z) (TTHC_MA (snd z)), snd z)) (enumerate 0 xs)"
  by (simp add: identify_def enumerate_map_snd case_prod_unfold)

lemma uniqueTTHC_char:
  "uniqueTTHC xs =
     (if \<exists>x\<in>set xs. nullish x
      then Inl (Error (''Cannot read properties of null or undefined (reading TTHC_MA)''))
      else Inr (map (\<lambda>k. last_with k xs) (first_occurrences (record_keys xs))))"
  by (simp add: uniqueTTHC_def mapM_keyed identify_keyed values_new_Map_keyed last_with_alt
      record_keys_alt)

lemma last_with_nth:
  assumes "k \<in> set (record_keys xs)"
  shows "\<exists>i<length xs. last_with k xs = xs ! i \<and> map_key i (TTHC_MA (xs ! i)) = k"
proof -
  let ?zs = "filter (\<lambda>z. map_key (fst z) (TTHC_MA (snd z)) = k) (enumerate 0 xs)"
  from assms have ne: "?zs \<noteq> []"
    by (auto simp: record_keys_alt filter_empty_conv)
  then have "last ?zs \<in> set ?zs"
    by (rule last_in_set)
  then have "last ?zs \<in> set (enumerate 0 xs)"
    and "map_key (fst (last ?zs)) (TTHC_MA (snd (last ?zs))) = k"
    by simp_all
  then have "fst (last ?zs) < length xs" and "xs ! fst (last ?zs) = snd (last ?zs)"
    and "map_key (fst (last ?zs)) (TTHC_MA (xs ! fst (last ?zs))) = k"
    by (simp_all add: in_set_enumerate_eq)
  then show ?thesis
    by (intro exI [of _ "fst (last ?zs)"]) (simp add: last_with_alt)
qed

lemma last_with_in: "k \<in> set (record_keys xs) \<Longrightarrow> last_with k xs \<in> set xs"
  using last_with_nth [of k xs] by auto

lemma last_with_Inl:
  "Inl j \<in> set (record_keys xs) \<Longrightarrow> primitive (TTHC_MA (last_with (Inl j) xs)) \<and> TTHC_MA (last_with (Inl j) xs) = j"
  using last_with_nth [of "Inl j" xs] by auto

lemma last_with_Inr:
  "Inr i \<in> set (record_keys xs) \<Longrightarrow> \<not> primitive (TTHC_MA (last_with (Inr i) xs)) \<and> last_with (Inr i) xs = xs ! i"
  using last_with_nth [of "Inr i" xs] by auto

lemma Inl_record_keys:
  "primitive k \<Longrightarrow> Inl k \<in> set (record_keys xs) \<longleftrightarrow> k \<in> TTHC_MA ` set xs"
proof -
  assume p: "primitive k"
  show ?thesis
  proof
    assume "Inl k \<in> set (record_keys xs)"
    then obtain z where z: "z \<in> set (enumerate 0 xs)" and "map_key (fst z) (TTHC_MA (snd z)) = Inl k"
      unfolding record_keys_alt by auto
    then have "TTHC_MA (snd z) = k" by simp
    moreover from z have "fst z < length xs" and "xs ! fst z = snd z"
      by (simp_all add: in_set_enumerate_eq)
    then have "snd z \<in> set xs"
      by (metis nth_mem)
    ultimately show "k \<in> TTHC_MA ` set xs" by blast
  next
    assume "k \<in> TTHC_MA ` set xs"
    then obtain x where x: "x \<in> set xs" and kx: "k = TTHC_MA x" by blast
    from x obtain i where i: "i < length xs" and xi: "xs ! i = x"
      by (auto simp: in_set_conv_nth)
    then have "(i, x) \<in> set (enumerate 0 xs)"
      by (simp add: in_set_enumerate_eq)
    moreover have "map_key i (TTHC_MA x) = Inl k"
      using p kx by simp
    ultimately show "Inl k \<in> set (record_keys xs)"
      unfolding record_keys_alt by force
  qed
qed

lemma last_with_primitive:
  assumes "primitive k" and "k \<in> TTHC_MA ` set xs"
  shows "last_with (Inl k) xs = last (filter (\<lambda>x. TTHC_MA x = k) xs)"
proof -
  let ?zs = "enumerate 0 xs"
  have eq: "filter (\<lambda>z. map_key (fst z) (TTHC_MA (snd z)) = Inl k) ?zs
              = filter (\<lambda>z. TTHC_MA (snd z) = k) ?zs"
    using assms(1) by (intro filter_cong) auto
  have m: "map snd (filter (\<lambda>z. TTHC_MA (snd z) = k) ?zs) = filter (\<lambda>x. TTHC_MA x = k) xs"
    using filter_map [of "\<lambda>x. TTHC_MA x = k" snd ?zs] by (simp add: comp_def)
  from assms(2) have "filter (\<lambda>x. TTHC_MA x = k) xs \<noteq> []"
    by (auto simp: filter_empty_conv)
  with m have ne: "filter (\<lambda>z. TTHC_MA (snd z) = k) ?zs \<noteq> []"
    by auto
  have "last_with (Inl k) xs = snd (last (filter (\<lambda>z. TTHC_MA (snd z) = k) ?zs))"
    by (simp only: last_with_alt eq)
  also have "\<dots> = last (map snd (filter (\<lambda>z. TTHC_MA (snd z) = k) ?zs))"
    using ne by (simp add: last_map)
  finally show ?thesis by (simp add: m)
qed

text \<open>Records whose keys are all primitive: the keys are the values of \<open>TTHC_MA\<close>.\<close>

lemma record_keys_primitive:
  assumes "\<forall>x\<in>set xs. primitive (TTHC_MA x)"
  shows "record_keys xs = map Inl (map TTHC_MA xs)"
proof -
  have "record_keys xs = map (\<lambda>z. Inl (TTHC_MA (snd z))) (enumerate 0 xs)"
    unfolding record_keys_alt using assms
    by (intro map_cong) (auto simp: map_key_def in_set_enumerate_eq)
  also have "\<dots> = map (\<lambda>x. Inl (TTHC_MA x)) xs"
    by (rule map_snd_enumerate_fun)
  finally show ?thesis by (simp add: comp_def)
qed

text \<open>The keys of a collection are pairwise different when its primitive keys are.\<close>

lemma distinct_keys_from:
  "distinct (filter primitive (map TTHC_MA ys)) \<Longrightarrow>
     distinct (map (\<lambda>(i, x). map_key i (TTHC_MA x)) (enumerate n ys))"
proof (induction ys arbitrary: n)
  case Nil
  then show ?case by simp
next
  case (Cons y ys)
  have rest: "distinct (map (\<lambda>(i, x). map_key i (TTHC_MA x)) (enumerate (Suc n) ys))"
    using Cons by (simp split: if_splits)
  have "map_key n (TTHC_MA y) \<notin> (\<lambda>(i, x). map_key i (TTHC_MA x)) ` set (enumerate (Suc n) ys)"
  proof
    assume "map_key n (TTHC_MA y) \<in> (\<lambda>(i, x). map_key i (TTHC_MA x)) ` set (enumerate (Suc n) ys)"
    then obtain i x where ix: "(i, x) \<in> set (enumerate (Suc n) ys)"
      and eq: "map_key n (TTHC_MA y) = map_key i (TTHC_MA x)"
      by auto
    from ix have i: "Suc n \<le> i" and x: "x \<in> set ys"
      by (auto simp: in_set_enumerate_eq)
    show False
    proof (cases "primitive (TTHC_MA y)")
      case True
      with eq have "primitive (TTHC_MA x)" and "TTHC_MA x = TTHC_MA y"
        by (auto simp: map_key_def split: if_splits)
      with x have "TTHC_MA y \<in> TTHC_MA ` set ys"
        by (metis imageI)
      with True have "TTHC_MA y \<in> set (filter primitive (map TTHC_MA ys))"
        by simp
      with Cons.prems True show False by simp
    next
      case False
      with eq i show False
        by (auto simp: map_key_def split: if_splits)
    qed
  qed
  with rest show ?case by simp
qed

lemma distinct_record_keys:
  "distinct (filter primitive (map TTHC_MA ys)) \<Longrightarrow> distinct (record_keys ys)"
  unfolding record_keys_def by (rule distinct_keys_from)

lemma uniqueTTHC_distinct_keys:
  assumes "\<forall>x\<in>set ys. \<not> nullish x" and "distinct (record_keys ys)"
  shows "uniqueTTHC ys = Inr ys"
proof -
  let ?g = "\<lambda>z. map_key (fst z) (TTHC_MA (snd z))"
  let ?zs = "enumerate 0 ys"
  have keys: "record_keys ys = map ?g ?zs"
    by (rule record_keys_alt)
  have "last_with (?g z) ys = snd z" if "z \<in> set ?zs" for z
  proof -
    have "filter (\<lambda>y. ?g y = ?g z) ?zs = [z]"
      using assms(2) that unfolding keys by (rule filter_key_distinct)
    then show ?thesis by (simp add: last_with_alt)
  qed
  then have "map (\<lambda>z. last_with (?g z) ys) ?zs = map snd ?zs"
    by (intro map_cong) simp_all
  moreover have "map (\<lambda>k. last_with k ys) (record_keys ys) = map (\<lambda>z. last_with (?g z) ys) ?zs"
    by (simp only: keys map_map comp_def)
  ultimately have "map (\<lambda>k. last_with k ys) (record_keys ys) = ys"
    by simp
  with assms show ?thesis
    by (simp add: uniqueTTHC_char first_occurrences_distinct)
qed

text \<open>The result of the duplicate removal has pairwise different keys.\<close>

lemma unique_primitive_keys_distinct:
  "distinct (filter primitive
     (map TTHC_MA (map (\<lambda>k. last_with k xs) (first_occurrences (record_keys xs)))))"
proof -
  let ?ds = "first_occurrences (record_keys xs)"
  let ?t = "\<lambda>k. TTHC_MA (last_with k xs)"
  have inl: "primitive (?t k) \<longleftrightarrow> isl k" and val: "isl k \<Longrightarrow> ?t k = projl k"
    if "k \<in> set ?ds" for k
  proof -
    from that have k: "k \<in> set (record_keys xs)"
      by (simp add: set_first_occurrences)
    show "primitive (?t k) \<longleftrightarrow> isl k"
    proof (cases k)
      case (Inl j)
      with k last_with_Inl [of j xs] show ?thesis by auto
    next
      case (Inr i)
      with k last_with_Inr [of i xs] show ?thesis by auto
    qed
    show "?t k = projl k" if "isl k"
    proof (cases k)
      case (Inl j)
      with k last_with_Inl [of j xs] show ?thesis by auto
    next
      case (Inr i)
      with that show ?thesis by simp
    qed
  qed
  have "filter primitive (map ?t ?ds) = map ?t (filter (\<lambda>k. primitive (?t k)) ?ds)"
    by (simp add: filter_map comp_def)
  also have "filter (\<lambda>k. primitive (?t k)) ?ds = filter isl ?ds"
    by (rule filter_cong) (simp_all add: inl)
  also have "map ?t (filter isl ?ds) = map projl (filter isl ?ds)"
    by (rule map_cong) (simp_all add: val)
  finally have eq: "filter primitive (map ?t ?ds) = map projl (filter isl ?ds)" .
  have "distinct (map projl (filter isl ?ds))"
  proof (subst distinct_map, intro conjI)
    show "distinct (filter isl ?ds)"
      by (simp add: distinct_first_occurrences)
    show "inj_on projl (set (filter isl ?ds))"
      by (rule inj_onI) (auto simp: isl_def)
  qed
  with eq show ?thesis by (simp add: comp_def)
qed

text \<open>Records whose key is an array or an object all pass through, in their order.\<close>

lemma record_keys_refs_distinct:
  "distinct (filter (\<lambda>k. \<not> isl k) (map (\<lambda>(i, x). map_key i (TTHC_MA x)) (enumerate n xs)))"
proof (induction xs arbitrary: n)
  case Nil
  then show ?case by simp
next
  case (Cons x xs)
  have "map_key n (TTHC_MA x) \<notin> (\<lambda>(i, x). map_key i (TTHC_MA x)) ` set (enumerate (Suc n) xs)"
    if "\<not> isl (map_key n (TTHC_MA x))"
  proof
    assume "map_key n (TTHC_MA x) \<in> (\<lambda>(i, x). map_key i (TTHC_MA x)) ` set (enumerate (Suc n) xs)"
    then obtain i y where "(i, y) \<in> set (enumerate (Suc n) xs)"
      and "map_key n (TTHC_MA x) = map_key i (TTHC_MA y)"
      by auto
    with that show False
      by (auto simp: map_key_def in_set_enumerate_eq split: if_splits)
  qed
  with Cons [of "Suc n"] show ?case by auto
qed

lemma unique_keeps_references:
  assumes "\<forall>x\<in>set xs. \<not> nullish x"
  shows "\<exists>ys. uniqueTTHC xs = Inr ys \<and>
              filter (\<lambda>y. \<not> primitive (TTHC_MA y)) ys = filter (\<lambda>x. \<not> primitive (TTHC_MA x)) xs"
proof -
  let ?g = "\<lambda>z. map_key (fst z) (TTHC_MA (snd z))"
  let ?zs = "enumerate 0 xs"
  let ?es = "map (\<lambda>z. (?g z, snd z)) ?zs"
  let ?Q = "\<lambda>k :: jsval + nat. \<not> isl k"
  have res: "uniqueTTHC xs = Inr (map snd (new_Map ?es))"
    using assms by (simp add: uniqueTTHC_def mapM_keyed identify_keyed map_values_def)
  have inv: "?Q (fst p) \<longleftrightarrow> \<not> primitive (TTHC_MA (snd p))" if "p \<in> set ?es" for p
    using that by (auto simp: map_key_def split: if_splits)
  have sub: "set (new_Map ?es) \<subseteq> set ?es"
    using set_fold_map_set [of ?es "[]"] by (simp add: new_Map_def)
  have d: "distinct (filter ?Q (map fst ?es))"
    using record_keys_refs_distinct [of 0 xs] by (simp add: comp_def case_prod_unfold)
  have "filter (\<lambda>p. ?Q (fst p)) (new_Map ?es) = filter (\<lambda>p. ?Q (fst p)) ?es"
    using filter_fold_map_set [of ?Q ?es "[]", OF d] by (simp add: new_Map_def)
  moreover have "filter (\<lambda>p. ?Q (fst p)) (new_Map ?es)
                   = filter (\<lambda>p. \<not> primitive (TTHC_MA (snd p))) (new_Map ?es)"
  proof (rule filter_cong [OF refl])
    fix p
    assume "p \<in> set (new_Map ?es)"
    with sub have "p \<in> set ?es" by blast
    then show "?Q (fst p) \<longleftrightarrow> \<not> primitive (TTHC_MA (snd p))" by (rule inv)
  qed
  moreover have "filter (\<lambda>p. ?Q (fst p)) ?es = filter (\<lambda>p. \<not> primitive (TTHC_MA (snd p))) ?es"
    by (rule filter_cong [OF refl]) (rule inv)
  ultimately have "filter (\<lambda>p. \<not> primitive (TTHC_MA (snd p))) (new_Map ?es)
                     = filter (\<lambda>p. \<not> primitive (TTHC_MA (snd p))) ?es"
    by simp
  then have "map snd (filter (\<lambda>p. \<not> primitive (TTHC_MA (snd p))) (new_Map ?es))
               = map snd (filter (\<lambda>p. \<not> primitive (TTHC_MA (snd p))) ?es)"
    by simp
  moreover have "map snd ?es = xs"
    by (simp add: comp_def)
  ultimately have "filter (\<lambda>y. \<not> primitive (TTHC_MA y)) (map snd (new_Map ?es))
                     = filter (\<lambda>x. \<not> primitive (TTHC_MA x)) xs"
    using filter_map [of "\<lambda>y. \<not> primitive (TTHC_MA y)" snd "new_Map ?es"]
      filter_map [of "\<lambda>y. \<not> primitive (TTHC_MA y)" snd ?es]
    by (simp add: comp_def)
  with res show ?thesis by blast
qed

section \<open>Claims about the duplicate removal\<close>

text \<open>
  C5. In a collection of records (no item is \<open>null\<close>), the duplicate removal by
  \<open>TTHC_MA\<close> returns a list in which every key of the input occurs on exactly one
  record, and that record is the last record of the input with that key. For a key that
  is a string, a number, a boolean, \<open>null\<close> or \<open>undefined\<close> this is the last record
  with an equal \<open>TTHC_MA\<close>. An array or object is a key of its own, whatever it holds: the
  record that has it is the only and the last one with that key, and all such records are
  kept, in their order.
\<close>

theorem uniqueTTHC_one_per_key_last_wins:
  assumes "\<forall>x\<in>set xs. \<not> nullish x"
  shows "\<exists>ys. uniqueTTHC xs = Inr ys \<and>
              (\<forall>k\<in>TTHC_MA ` set xs. primitive k \<longrightarrow>
                 filter (\<lambda>y. TTHC_MA y = k) ys = [last (filter (\<lambda>x. TTHC_MA x = k) xs)]) \<and>
              filter (\<lambda>y. \<not> primitive (TTHC_MA y)) ys = filter (\<lambda>x. \<not> primitive (TTHC_MA x)) xs"
proof -
  let ?ds = "first_occurrences (record_keys xs)"
  let ?ys = "map (\<lambda>k. last_with k xs) ?ds"
  have res: "uniqueTTHC xs = Inr ?ys"
    using assms by (simp add: uniqueTTHC_char)
  have one: "filter (\<lambda>y. TTHC_MA y = k) ?ys = [last (filter (\<lambda>x. TTHC_MA x = k) xs)]"
    if k: "k \<in> TTHC_MA ` set xs" and p: "primitive k" for k
  proof -
    have mem: "Inl k \<in> set (record_keys xs)"
      using k p by (simp add: Inl_record_keys)
    have key: "TTHC_MA (last_with d xs) = k \<longleftrightarrow> d = Inl k" if "d \<in> set ?ds" for d
    proof (cases d)
      case (Inl j)
      with that last_with_Inl [of j xs] show ?thesis
        by (auto simp: set_first_occurrences)
    next
      case (Inr i)
      with that last_with_Inr [of i xs] p show ?thesis
        by (auto simp: set_first_occurrences)
    qed
    have "filter (\<lambda>y. TTHC_MA y = k) ?ys
            = map (\<lambda>d. last_with d xs) (filter (\<lambda>d. TTHC_MA (last_with d xs) = k) ?ds)"
      by (simp add: filter_map comp_def)
    also have "filter (\<lambda>d. TTHC_MA (last_with d xs) = k) ?ds = filter (\<lambda>d. d = Inl k) ?ds"
      by (rule filter_cong [OF refl]) (rule key)
    also have "\<dots> = [Inl k]"
      using mem by (intro filter_eq_distinct) (simp_all add: distinct_first_occurrences set_first_occurrences)
    finally show ?thesis
      using last_with_primitive [OF p k] by simp
  qed
  obtain zs where zs: "uniqueTTHC xs = Inr zs"
    and refs: "filter (\<lambda>y. \<not> primitive (TTHC_MA y)) zs = filter (\<lambda>x. \<not> primitive (TTHC_MA x)) xs"
    using unique_keeps_references [OF assms] by blast
  from zs res have "zs = ?ys" by simp
  with refs res one show ?thesis by blast
qed

theorem uniqueTTHC_one_per_key_last_wins_witness:
  "\<exists>ys. uniqueTTHC
           [JObj [(''TTHC_MA'', JStr ''1.001''), (''NAME'', JStr ''old'')],
            JObj [(''TTHC_MA'', JArr [JNum 1]), (''NAME'', JStr ''a'')],
            JObj [(''TTHC_MA'', JStr ''1.001''), (''NAME'', JStr ''new'')],
            JObj [(''TTHC_MA'', JArr [JNum 1]), (''NAME'', JStr ''b'')]] = Inr ys \<and>
        filter (\<lambda>y. TTHC_MA y = JStr ''1.001'') ys
          = [JObj [(''TTHC_MA'', JStr ''1.001''), (''NAME'', JStr ''new'')]] \<and>
        filter (\<lambda>y. \<not> primitive (TTHC_MA y)) ys
          = [JObj [(''TTHC_MA'', JArr [JNum 1]), (''NAME'', JStr ''a'')],
             JObj [(''TTHC_MA'', JArr [JNum 1]), (''NAME'', JStr ''b'')]]"
proof -
  let ?xs = "[JObj [(''TTHC_MA'', JStr ''1.001''), (''NAME'', JStr ''old'')],
              JObj [(''TTHC_MA'', JArr [JNum 1]), (''NAME'', JStr ''a'')],
              JObj [(''TTHC_MA'', JStr ''1.001''), (''NAME'', JStr ''new'')],
              JObj [(''TTHC_MA'', JArr [JNum 1]), (''NAME'', JStr ''b'')]]"
  have h1: "\<forall>x\<in>set ?xs. \<not> nullish x"
    by (simp add: nullish_def)
  have h2: "JStr ''1.001'' \<in> TTHC_MA ` set ?xs" and h3: "primitive (JStr ''1.001'')"
    by (simp_all add: TTHC_MA_def primitive_def)
  obtain ys where r: "uniqueTTHC ?xs = Inr ys"
    and a: "\<forall>k\<in>TTHC_MA ` set ?xs. primitive k \<longrightarrow>
              filter (\<lambda>y. TTHC_MA y = k) ys = [last (filter (\<lambda>x. TTHC_MA x = k) ?xs)]"
    and b: "filter (\<lambda>y. \<not> primitive (TTHC_MA y)) ys = filter (\<lambda>x. \<not> primitive (TTHC_MA x)) ?xs"
    using uniqueTTHC_one_per_key_last_wins [OF h1] by blast
  from a h2 h3 have "filter (\<lambda>y. TTHC_MA y = JStr ''1.001'') ys
                       = [last (filter (\<lambda>x. TTHC_MA x = JStr ''1.001'') ?xs)]"
    by blast
  then have a': "filter (\<lambda>y. TTHC_MA y = JStr ''1.001'') ys
                   = [JObj [(''TTHC_MA'', JStr ''1.001''), (''NAME'', JStr ''new'')]]"
    by (simp add: TTHC_MA_def)
  from b have b': "filter (\<lambda>y. \<not> primitive (TTHC_MA y)) ys
                     = [JObj [(''TTHC_MA'', JArr [JNum 1]), (''NAME'', JStr ''a'')],
                        JObj [(''TTHC_MA'', JArr [JNum 1]), (''NAME'', JStr ''b'')]]"
    by (simp add: TTHC_MA_def primitive_def)
  from r a' b' show ?thesis by blast
qed

text \<open>
  C6. Removing duplicates a second time changes nothing: running the step on its own
  result gives that result again (and a run that throws on a \<open>null\<close> item throws the same
  error either way).
\<close>

theorem uniqueTTHC_idempotent:
  "(case uniqueTTHC xs of Inl e \<Rightarrow> Inl e | Inr ys \<Rightarrow> uniqueTTHC ys) = uniqueTTHC xs"
proof (cases "\<exists>x\<in>set xs. nullish x")
  case True
  then show ?thesis by (simp add: uniqueTTHC_char)
next
  case False
  let ?ds = "first_occurrences (record_keys xs)"
  let ?ys = "map (\<lambda>k. last_with k xs) ?ds"
  have res: "uniqueTTHC xs = Inr ?ys"
    using False by (simp add: uniqueTTHC_char)
  have "set ?ys \<subseteq> set xs"
    using last_with_in [of _ xs] by (auto simp: set_first_occurrences)
  with False have nn: "\<forall>y\<in>set ?ys. \<not> nullish y"
    by blast
  have "distinct (record_keys ?ys)"
    by (rule distinct_record_keys) (rule unique_primitive_keys_distinct)
  with nn have "uniqueTTHC ?ys = Inr ?ys"
    by (rule uniqueTTHC_distinct_keys)
  with res show ?thesis by simp
qed

text \<open>
  C10. The output of the duplicate removal lists the keys in the order of their first
  occurrence in the input, and the record standing at each key's place is the last record
  of the input with that key. Keys are told apart as the \<open>Map\<close> does it; when every
  \<open>TTHC_MA\<close> is a string, a number, a boolean, \<open>null\<close> or \<open>undefined\<close>, the keys are the
  values of \<open>TTHC_MA\<close> themselves.
\<close>

theorem uniqueTTHC_first_position_last_fields:
  assumes "\<forall>x\<in>set xs. \<not> nullish x"
  shows "\<exists>ys. uniqueTTHC xs = Inr ys \<and>
              ys = map (\<lambda>k. last_with k xs) (first_occurrences (record_keys xs)) \<and>
              ((\<forall>x\<in>set xs. primitive (TTHC_MA x)) \<longrightarrow>
                 map TTHC_MA ys = first_occurrences (map TTHC_MA xs) \<and>
                 ys = map (\<lambda>k. last (filter (\<lambda>x. TTHC_MA x = k) xs)) (map TTHC_MA ys))"
proof -
  let ?ds = "first_occurrences (record_keys xs)"
  let ?ys = "map (\<lambda>k. last_with k xs) ?ds"
  let ?fo = "first_occurrences (map TTHC_MA xs)"
  have a: "uniqueTTHC xs = Inr ?ys"
    using assms by (simp add: uniqueTTHC_char)
  have b: "map TTHC_MA ?ys = ?fo \<and>
           ?ys = map (\<lambda>k. last (filter (\<lambda>x. TTHC_MA x = k) xs)) (map TTHC_MA ?ys)"
    if prim: "\<forall>x\<in>set xs. primitive (TTHC_MA x)"
  proof -
    have "?ds = map Inl ?fo"
      by (simp only: record_keys_primitive [OF prim] first_occurrences_map_inj [OF inj_Inl])
    then have ys: "?ys = map (\<lambda>k. last_with (Inl k) xs) ?fo"
      by (simp add: comp_def)
    have each: "last_with (Inl k) xs = last (filter (\<lambda>x. TTHC_MA x = k) xs)
                \<and> TTHC_MA (last_with (Inl k) xs) = k" if "k \<in> set ?fo" for k
    proof -
      from that have k: "k \<in> TTHC_MA ` set xs"
        by (simp add: set_first_occurrences)
      with prim have p: "primitive k" by auto
      from k p have "Inl k \<in> set (record_keys xs)"
        by (simp add: Inl_record_keys)
      with last_with_Inl [of k xs] last_with_primitive [OF p k] show ?thesis by simp
    qed
    have "map (\<lambda>k. TTHC_MA (last_with (Inl k) xs)) ?fo = map (\<lambda>k. k) ?fo"
      by (rule map_cong [OF refl]) (rule each [THEN conjunct2])
    then have keys: "map TTHC_MA ?ys = ?fo"
      unfolding ys by (simp add: comp_def)
    have "?ys = map (\<lambda>k. last (filter (\<lambda>x. TTHC_MA x = k) xs)) ?fo"
      unfolding ys by (rule map_cong [OF refl]) (rule each [THEN conjunct1])
    with keys show ?thesis by simp
  qed
  show ?thesis
    using a b by blast
qed

theorem uniqueTTHC_first_position_last_fields_witness:
  "uniqueTTHC
     [JObj [(''TTHC_MA'', JStr ''A''), (''PAGE'', JNum 1)],
      JObj [(''TTHC_MA'', JStr ''B''), (''PAGE'', JNum 1)],
      JObj [(''TTHC_MA'', JStr ''A''), (''PAGE'', JNum 2)]]
   = Inr [JObj [(''TTHC_MA'', JStr ''A''), (''PAGE'', JNum 2)],
          JObj [(''TTHC_MA'', JStr ''B''), (''PAGE'', JNum 1)]]"
proof -
  let ?xs = "[JObj [(''TTHC_MA'', JStr ''A''), (''PAGE'', JNum 1)],
              JObj [(''TTHC_MA'', JStr ''B''), (''PAGE'', JNum 1)],
              JObj [(''TTHC_MA'', JStr ''A''), (''PAGE'', JNum 2)]]"
  have h: "\<forall>x\<in>set ?xs. \<not> nullish x"
    by (simp add: nullish_def)
  have p: "\<forall>x\<in>set ?xs. primitive (TTHC_MA x)"
    by (simp add: TTHC_MA_def primitive_def)
  obtain ys where r: "uniqueTTHC ?xs = Inr ys"
    and k: "map TTHC_MA ys = first_occurrences (map TTHC_MA ?xs)"
    and v: "ys = map (\<lambda>k. last (filter (\<lambda>x. TTHC_MA x = k) ?xs)) (map TTHC_MA ys)"
    using uniqueTTHC_first_position_last_fields [OF h] p by blast
  have "map TTHC_MA ys = [JStr ''A'', JStr ''B'']"
    using k by (simp add: TTHC_MA_def)
  with v have "ys = [JObj [(''TTHC_MA'', JStr ''A''), (''PAGE'', JNum 2)],
                     JObj [(''TTHC_MA'', JStr ''B''), (''PAGE'', JNum 1)]]"
    by (simp add: TTHC_MA_def)
  with r show ?thesis by simp
qed

section \<open>The page loops\<close>

lemma fetchPage_log [simp]: "snd (fetchPage remote sent p) = sent @ [p]"
  by (simp add: fetchPage_def)



lemma replies_nth:
  "i < length ps \<Longrightarrow> replies remote n ps ! i = remote (n + i) (ps ! i)"
proof (induction ps arbitrary: n i)
  case Nil
  then show ?case by simp
next
  case (Cons p ps)
  then show ?case by (cases i) simp_all
qed

lemma length_replies [simp]: "length (replies remote n ps) = length ps"
  by (induction ps arbitrary: n) simp_all


lemma fetchTTHC_Inr:
  "fetchTTHC remote sent p = (Inr json, sent') \<longleftrightarrow>
     remote (length sent) p = Response 200 (Parsed json) \<and> sent' = sent @ [p]"
  by (auto simp: fetchTTHC_def split: reply.splits payload.splits)

lemma fetchTTHC_Inl:
  "(\<exists>e. fetchTTHC remote sent p = (Inl e, sent')) \<longleftrightarrow>
     failed200 (remote (length sent) p) \<and> sent' = sent @ [p]"
  by (auto simp: fetchTTHC_def failed200_def split: reply.splits payload.splits)

lemma run_upd_requested [simp]:
  "s\<lparr>requested := x\<rparr> = \<lparr>requested = x, allTTHC = allTTHC s\<rparr>"
  by (cases s) simp

lemma page_records_failed200: "failed200 r \<Longrightarrow> page_records (\<lambda>st. st = 200) r = []"
  by (auto simp: page_records_def failed200_def split: reply.splits payload.splits jsval.splits)

lemma has_records_iff: "has_records json \<longleftrightarrow> (\<exists>x xs. json = JArr (x # xs))"
  by (auto simp: has_records_def split: jsval.splits list.splits)

lemma tthc_loop_char:
  "\<exists>n\<le>length ps.
     tthc_loop remote limit ps s =
       \<lparr>requested = requested s @ take n ps,
        allTTHC = allTTHC s @ concat (map (page_records (\<lambda>st. st = 200))
                     (replies remote (length (requested s)) (take n ps)))\<rparr>
     \<and> (ps \<noteq> [] \<longrightarrow> 0 < n)
     \<and> (\<forall>i<n. Suc i < length ps \<longrightarrow> failed200 (remote (length (requested s) + i) (ps ! i)) \<longrightarrow> Suc i < n)
     \<and> (\<forall>i<n. \<forall>json. remote (length (requested s) + i) (ps ! i) = Response 200 (Parsed json)
              \<longrightarrow> \<not> has_records json \<longrightarrow> Suc i = n)"
proof (induction ps arbitrary: s)
  case Nil
  then show ?case by simp
next
  case (Cons p ps)
  let ?r = "remote (length (requested s)) p"
  let ?sent = "requested s @ [p]"
  let ?s1 = "\<lparr>requested = ?sent, allTTHC = allTTHC s @ page_records (\<lambda>st. st = 200) ?r\<rparr>"
  have stop: ?case if "tthc_loop remote limit (p # ps) s = ?s1" and "\<not> failed200 ?r"
  proof (intro exI [of _ 1] conjI allI impI)
    show "1 \<le> length (p # ps)" by simp
    show "tthc_loop remote limit (p # ps) s =
       \<lparr>requested = requested s @ take 1 (p # ps),
        allTTHC = allTTHC s @ concat (map (page_records (\<lambda>st. st = 200))
                     (replies remote (length (requested s)) (take 1 (p # ps))))\<rparr>"
      using that(1) by simp
    show "0 < (1::nat)" by simp
  next
    fix i assume "i < 1" "failed200 (remote (length (requested s) + i) ((p # ps) ! i))"
    with that(2) show "Suc i < 1" by simp
  next
    fix i :: nat assume "i < 1"
    then show "Suc i = 1" by simp
  qed
  have go: ?case if "tthc_loop remote limit (p # ps) s = tthc_loop remote limit ps ?s1"
    and data: "\<And>json. ?r = Response 200 (Parsed json) \<Longrightarrow> has_records json"
  proof -
    from Cons.IH [of ?s1] obtain n where n: "n \<le> length ps"
      and eq: "tthc_loop remote limit ps ?s1 =
       \<lparr>requested = requested ?s1 @ take n ps,
        allTTHC = allTTHC ?s1 @ concat (map (page_records (\<lambda>st. st = 200))
                     (replies remote (length (requested ?s1)) (take n ps)))\<rparr>"
      and pos: "ps \<noteq> [] \<longrightarrow> 0 < n"
      and nx: "\<forall>i<n. Suc i < length ps \<longrightarrow> failed200 (remote (length (requested ?s1) + i) (ps ! i)) \<longrightarrow> Suc i < n"
      and br: "\<forall>i<n. \<forall>json. remote (length (requested ?s1) + i) (ps ! i) = Response 200 (Parsed json)
              \<longrightarrow> \<not> has_records json \<longrightarrow> Suc i = n"
      by blast
    have a: "Suc n \<le> length (p # ps)" using n by simp
    have b: "tthc_loop remote limit (p # ps) s =
       \<lparr>requested = requested s @ take (Suc n) (p # ps),
        allTTHC = allTTHC s @ concat (map (page_records (\<lambda>st. st = 200))
                     (replies remote (length (requested s)) (take (Suc n) (p # ps))))\<rparr>"
      using that(1) eq by simp
    have c: "Suc i < Suc n"
      if i: "i < Suc n" "Suc i < length (p # ps)"
        "failed200 (remote (length (requested s) + i) ((p # ps) ! i))" for i
    proof (cases i)
      case 0
      with i(2) pos show ?thesis by auto
    next
      case (Suc j)
      with i nx show ?thesis by simp
    qed
    have d: "Suc i = Suc n"
      if i: "i < Suc n" "remote (length (requested s) + i) ((p # ps) ! i) = Response 200 (Parsed json)"
        "\<not> has_records json" for i json
    proof (cases i)
      case 0
      with i data [of json] show ?thesis by simp
    next
      case (Suc j)
      with i have "j < n" and "remote (length (requested ?s1) + j) (ps ! j) = Response 200 (Parsed json)"
        by simp_all
      with br i(3) have "Suc j = n" by blast
      with Suc show ?thesis by simp
    qed
    show ?thesis
    proof (intro exI [of _ "Suc n"] conjI allI impI)
      show "Suc n \<le> length (p # ps)" by (rule a)
      show "tthc_loop remote limit (p # ps) s =
       \<lparr>requested = requested s @ take (Suc n) (p # ps),
        allTTHC = allTTHC s @ concat (map (page_records (\<lambda>st. st = 200))
                     (replies remote (length (requested s)) (take (Suc n) (p # ps))))\<rparr>"
        by (rule b)
      show "0 < Suc n" by simp
    next
      fix i assume "i < Suc n" "Suc i < length (p # ps)"
        "failed200 (remote (length (requested s) + i) ((p # ps) ! i))"
      then show "Suc i < Suc n" by (rule c)
    next
      fix i json assume "i < Suc n"
        "remote (length (requested s) + i) ((p # ps) ! i) = Response 200 (Parsed json)"
        "\<not> has_records json"
      then show "Suc i = Suc n" by (rule d)
    qed
  qed
  show ?case
  proof (cases "failed200 ?r")
    case True
    then obtain e where "fetchTTHC remote (requested s) p = (Inl e, ?sent)"
      using fetchTTHC_Inl [of remote "requested s" p ?sent] by blast
    then have "tthc_loop remote limit (p # ps) s = tthc_loop remote limit ps ?s1"
      using True by (simp add: page_records_failed200)
    moreover have "has_records json" if "?r = Response 200 (Parsed json)" for json
      using True that by (simp add: failed200_def)
    ultimately show ?thesis by (rule go)
  next
    case nf: False
    then obtain json where r: "?r = Response 200 (Parsed json)"
      by (auto simp: failed200_def)
    then have f: "fetchTTHC remote (requested s) p = (Inr json, ?sent)"
      by (simp add: fetchTTHC_Inr)
    show ?thesis
    proof (cases "\<exists>x xs. json = JArr (x # xs)")
      case True
      then obtain x xs where j: "json = JArr (x # xs)" by blast
      have pr: "page_records (\<lambda>st. st = 200) ?r = x # xs"
        by (simp add: r j page_records_def)
      have hr: "has_records json'" if "?r = Response 200 (Parsed json')" for json'
        using that r j by (auto simp: has_records_def)
      show ?thesis
      proof (cases "\<exists>l. limit_value limit = Some l \<and> l \<le> int (length (allTTHC s @ x # xs))")
        case True
        then have "tthc_loop remote limit (p # ps) s = ?s1"
          using f j pr by (auto simp: Let_def)
        then show ?thesis using nf by (rule stop)
      next
        case False
        then have "tthc_loop remote limit (p # ps) s = tthc_loop remote limit ps ?s1"
          using f j pr by (auto simp: Let_def split: option.splits)
        then show ?thesis using hr by (rule go)
      qed
    next
      case False
      then have nodata: "json = JArr ys \<Longrightarrow> ys = []" for ys
        by (cases ys) auto
      then have pr: "page_records (\<lambda>st. st = 200) ?r = []"
        by (auto simp: r page_records_def split: jsval.splits list.splits)
      have "tthc_loop remote limit (p # ps) s = ?s1"
        using f nodata pr by (auto split: jsval.splits list.splits)
      then show ?thesis using nf by (rule stop)
    qed
  qed
qed

section \<open>Claims about a failed page request\<close>

text \<open>
  C2 (as amended). On a transport-level failure, \<open>DecisionCrawler.fetchPage\<close> issues one
  request and throws the underlying error, which is determined by the reply alone (the
  page index is logged, not carried by the error); \<open>fetchPage\<close> of \<open>crawler.js\<close> issues
  one request too, but catches the failure and returns an empty page.
\<close>

theorem fetchPage_failure:
  assumes "transport_failure (remote (length sent) pageIndex)"
  shows "(\<exists>cause. fetchPage remote sent pageIndex = (Inl cause, sent @ [pageIndex]) \<and>
            (\<forall>remote' sent' q. remote' (length sent') q = remote (length sent) pageIndex
                \<longrightarrow> fst (fetchPage remote' sent' q) = Inl cause))
         \<and> emoh_fetchPage remote sent pageIndex = (\<lparr>docs = JArr [], nTotal = JNum 0\<rparr>, sent @ [pageIndex])"
  using assms
  by (auto simp: transport_failure_def fetchPage_def emoh_fetchPage_def
           split: reply.splits payload.splits)

theorem fetchPage_failure_witness:
  "fetchPage (\<lambda>k p. Response 404 (Parsed JNull)) [1, 2] 3 = (Inl (Error ''HTTP error! status: 404''), [1, 2, 3])
   \<and> emoh_fetchPage (\<lambda>k p. Response 404 (Parsed JNull)) [1, 2] 3 = (\<lparr>docs = JArr [], nTotal = JNum 0\<rparr>, [1, 2, 3])"
proof -
  let ?remote = "\<lambda>(k::nat) (p::int). Response 404 (Parsed JNull)"
  have h: "transport_failure (?remote (length [1, 2 :: int]) 3)"
    by (simp add: transport_failure_def ok_def)
  have "fst (fetchPage ?remote [1, 2] 3) = Inl (Error ''HTTP error! status: 404'')"
    by code_simp
  with fetchPage_failure [of ?remote "[1, 2]" 3, OF h] show ?thesis
    by auto
qed

text \<open>
  C2 as stated fails: on a 503 with a body that is not JSON, \<open>fetchPage\<close> of
  \<open>crawler.js\<close> returns a normal, empty page; and the error \<open>DecisionCrawler.fetchPage\<close>
  throws is the cause itself, without a page index.
\<close>

theorem fetchPage_failure_counterexample:
  "emoh_fetchPage (\<lambda>k p. Response 503 (Malformed ''Unexpected token <'')) [] 3
     = (\<lparr>docs = JArr [], nTotal = JNum 0\<rparr>, [3])
   \<and> fst (fetchPage (\<lambda>k p. NetworkError ''fetch failed'') [] 3) = Inl (Error ''fetch failed'')"
  by (simp add: emoh_fetchPage_def fetchPage_def ok_def)

section \<open>Claims about an empty first page\<close>

lemma pages_below_zero [simp]: "pages_below 1 (ceil_div (Num 0) P) = []" "pages_below 0 (ceil_div (Num 0) P) = []"
  by simp_all




section \<open>Claims about the number of page fetches\<close>

text \<open>\<open>ceil_div\<close> is the ceiling of the quotient.\<close>

lemma ceil_div_ceiling:
  "b \<noteq> 0 \<Longrightarrow> ceil_div (Num a) b = Num \<lceil>real_of_int a / real_of_int b\<rceil>"
  by (simp add: ceiling_divide_eq_div)


















section \<open>Claims about the record limit\<close>

lemma tthc_loop_limit_cong:
  "limit_value l1 = limit_value l2 \<Longrightarrow> tthc_loop remote l1 ps s = tthc_loop remote l2 ps s"
  by (induction ps arbitrary: s)
     (simp_all add: Let_def split: prod.splits sum.splits jsval.splits list.splits option.splits)

lemma tthc_main_requested_cases:
  "(snd (tthc_main P limit remote) = \<lparr>requested = [1], allTTHC = []\<rparr>
      \<and> (\<forall>final. fst (tthc_main P limit remote) \<noteq> Saved final))
   \<or> (\<exists>first rest reported.
        snd (tthc_main P limit remote) =
          tthc_loop remote limit
            (pages_upto 2 (ceil_div (case limit_value limit of Some l \<Rightarrow> Num l
                                      | None \<Rightarrow> parseInt (js_or reported (JNum 0))) P))
            \<lparr>requested = [1], allTTHC = first # rest\<rparr>
        \<and> (\<forall>final. fst (tthc_main P limit remote) = Saved final \<longrightarrow>
              (\<exists>unique. uniqueTTHC (allTTHC (snd (tthc_main P limit remote))) = Inr unique \<and>
                 final = (case limit_value limit of Some l \<Rightarrow> slice0 unique l | None \<Rightarrow> unique))))"
proof -
  obtain r where f: "fetchTTHC remote [] 1 = (r, [1])"
    by (simp add: fetchTTHC_def)
  show ?thesis
  proof (cases r)
    case (Inl e)
    with f show ?thesis by (simp add: tthc_main_def)
  next
    case (Inr firstPage)
    show ?thesis
    proof (cases "\<exists>first rest. firstPage = JArr (first # rest)")
      case False
      with f Inr have "tthc_main P limit remote = (NoData, \<lparr>requested = [1], allTTHC = []\<rparr>)"
        by (auto simp: tthc_main_def split: jsval.splits list.splits)
      then show ?thesis by simp
    next
      case True
      then obtain first rest where fp: "firstPage = JArr (first # rest)" by blast
      show ?thesis
      proof (cases "getprop first ''TOTAL_RECORDS''")
        case (Inl e)
        with f Inr fp show ?thesis by (simp add: tthc_main_def)
      next
        case g: (Inr reported)
        let ?s = "tthc_loop remote limit
            (pages_upto 2 (ceil_div (case limit_value limit of Some l \<Rightarrow> Num l
                                      | None \<Rightarrow> parseInt (js_or reported (JNum 0))) P))
            \<lparr>requested = [1], allTTHC = first # rest\<rparr>"
        have "snd (tthc_main P limit remote) = ?s"
          using f Inr fp g by (simp add: tthc_main_def Let_def split: sum.splits)
        moreover have "\<exists>unique. uniqueTTHC (allTTHC ?s) = Inr unique \<and>
                 final = (case limit_value limit of Some l \<Rightarrow> slice0 unique l | None \<Rightarrow> unique)"
          if "fst (tthc_main P limit remote) = Saved final" for final
          using that f Inr fp g by (simp add: tthc_main_def Let_def split: sum.splits)
        ultimately show ?thesis by (intro disjI2 exI [of _ first] exI [of _ rest] exI [of _ reported]) simp
      qed
    qed
  qed
qed

text \<open>
  C3 (as amended). With a limit \<open>L \<ge> 1\<close> and page size \<open>P\<close>, \<open>main\<close> of \<open>list_tthc.js\<close>
  issues at least one and at most \<open>ceil(L/P)\<close> page fetches, exactly one when \<open>L \<le> P\<close>;
  what it saves is the first \<open>L\<close> records of the deduplicated collection, so the limit cuts
  after the duplicate removal and the result has at most \<open>L\<close> records. A limit of 0 is
  treated as no limit at all.
\<close>

theorem limit_bounds_fetches:
  assumes "0 < P" and "1 \<le> L"
  shows "1 \<le> length (requested (snd (tthc_main P (Some (Num L)) remote)))
       \<and> int (length (requested (snd (tthc_main P (Some (Num L)) remote)))) \<le> \<lceil>real_of_int L / real_of_int P\<rceil>
       \<and> (L \<le> P \<longrightarrow> requested (snd (tthc_main P (Some (Num L)) remote)) = [1])
       \<and> (\<forall>final. fst (tthc_main P (Some (Num L)) remote) = Saved final \<longrightarrow>
             (\<exists>unique. uniqueTTHC (allTTHC (snd (tthc_main P (Some (Num L)) remote))) = Inr unique \<and>
                       final = take (nat L) unique) \<and>
             int (length final) \<le> L)
       \<and> tthc_main P (Some (Num 0)) remote = tthc_main P None remote"
proof -
  define M where "M = \<lceil>real_of_int L / real_of_int P\<rceil>"
  let ?run = "tthc_main P (Some (Num L)) remote"
  have lv: "limit_value (Some (Num L)) = Some L"
    using assms by simp
  have cd: "ceil_div (Num L) P = Num M"
    unfolding M_def using assms by (intro ceil_div_ceiling) simp
  have "0 < real_of_int L / real_of_int P"
    using assms by simp
  then have M1: "1 \<le> M"
    unfolding M_def by linarith
  have small: "M = 1" if "L \<le> P"
  proof -
    from that assms have "real_of_int L / real_of_int P \<le> 1" by simp
    then have "M \<le> 1" unfolding M_def by (simp add: ceiling_le_one)
    with M1 show ?thesis by simp
  qed
  have reqs: "1 \<le> length (requested (snd ?run)) \<and> int (length (requested (snd ?run))) \<le> M
              \<and> (L \<le> P \<longrightarrow> requested (snd ?run) = [1])"
    and fin: "\<forall>final. fst ?run = Saved final \<longrightarrow>
             (\<exists>unique. uniqueTTHC (allTTHC (snd ?run)) = Inr unique \<and> final = take (nat L) unique)"
  proof -
    from tthc_main_requested_cases [of P "Some (Num L)" remote]
    consider (early) "snd ?run = \<lparr>requested = [1], allTTHC = []\<rparr>" "\<forall>final. fst ?run \<noteq> Saved final"
      | (loop) first rest where
          "snd ?run = tthc_loop remote (Some (Num L)) [2..M] \<lparr>requested = [1], allTTHC = first # rest\<rparr>"
          "\<forall>final. fst ?run = Saved final \<longrightarrow>
              (\<exists>unique. uniqueTTHC (allTTHC (snd ?run)) = Inr unique \<and> final = slice0 unique L)"
      unfolding lv using cd by auto
    then have "(1 \<le> length (requested (snd ?run)) \<and> int (length (requested (snd ?run))) \<le> M
              \<and> (L \<le> P \<longrightarrow> requested (snd ?run) = [1]))
           \<and> (\<forall>final. fst ?run = Saved final \<longrightarrow>
             (\<exists>unique. uniqueTTHC (allTTHC (snd ?run)) = Inr unique \<and> final = take (nat L) unique))"
    proof cases
      case early
      with M1 show ?thesis by simp
    next
      case loop
      from tthc_loop_char [of "[2..M]" remote "Some (Num L)" "\<lparr>requested = [1], allTTHC = first # rest\<rparr>"]
      obtain n where n: "n \<le> length [2..M]"
        and r: "requested (snd ?run) = [1] @ take n [2..M]"
        using loop(1) by auto
      have "length [2..M] = nat (M - 1)" by simp
      with n r M1 have "1 \<le> length (requested (snd ?run))" "int (length (requested (snd ?run))) \<le> M"
        by simp_all
      moreover have "requested (snd ?run) = [1]" if "L \<le> P"
        using small [OF that] r by simp
      moreover have "slice0 unique L = take (nat L) unique" for unique :: "jsval list"
        using assms by (simp add: slice0_def)
      ultimately show ?thesis using loop(2) by simp
    qed
    then show "1 \<le> length (requested (snd ?run)) \<and> int (length (requested (snd ?run))) \<le> M
              \<and> (L \<le> P \<longrightarrow> requested (snd ?run) = [1])"
      and "\<forall>final. fst ?run = Saved final \<longrightarrow>
             (\<exists>unique. uniqueTTHC (allTTHC (snd ?run)) = Inr unique \<and> final = take (nat L) unique)"
      by blast+
  qed
  have len: "int (length final) \<le> L" if "fst ?run = Saved final" for final
  proof -
    from fin that obtain unique where "final = take (nat L) unique" by blast
    then show ?thesis using assms by simp
  qed
  have lv0: "limit_value (Some (Num 0)) = limit_value None"
    by simp
  then have loop0: "tthc_loop remote (Some (Num 0)) = tthc_loop remote None"
    by (intro ext) (rule tthc_loop_limit_cong)
  have zero: "tthc_main P (Some (Num 0)) remote = tthc_main P None remote"
    unfolding tthc_main_def lv0 loop0 ..
  from reqs fin len zero show ?thesis
    unfolding M_def by blast
qed

theorem limit_bounds_fetches_witness:
  "requested (snd (tthc_main 50 (Some (Num 10))
      (\<lambda>k p. Response 200 (Parsed (JArr (map (\<lambda>i. JObj [(''TTHC_MA'', JNum i)]) [1..12])))))) = [1]
   \<and> (\<exists>final. fst (tthc_main 50 (Some (Num 10))
          (\<lambda>k p. Response 200 (Parsed (JArr (map (\<lambda>i. JObj [(''TTHC_MA'', JNum i)]) [1..12])))))
          = Saved final \<and> final \<noteq> [] \<and> int (length final) \<le> 10)"
proof -
  let ?R = "\<lambda>(k::nat) (p::int). Response 200 (Parsed (JArr (map (\<lambda>i. JObj [(''TTHC_MA'', JNum i)]) [1..12])))"
  have P: "(0::int) < 50" and L: "(1::int) \<le> 10" by simp_all
  note t = limit_bounds_fetches [OF P L, of ?R]
  have one: "requested (snd (tthc_main 50 (Some (Num 10)) ?R)) = [1]"
    using t by simp
  have saved: "fst (tthc_main 50 (Some (Num 10)) ?R) = Saved (map (\<lambda>i. JObj [(''TTHC_MA'', JNum i)]) [1..10])"
    by code_simp
  with t have "int (length (map (\<lambda>i. JObj [(''TTHC_MA'', JNum i)]) [1..10 :: int])) \<le> 10"
    by blast
  with one saved show ?thesis by simp
qed

text \<open>
  C3 as stated fails for the limit 0: with 2500 records reported and pages of 1000,
  \<open>--limit 0\<close> fetches three pages and saves every record.
\<close>

theorem limit_bounds_fetches_counterexample:
  "tthc_main 1000 (Some (Num 0))
      (\<lambda>k p. Response 200 (Parsed (JArr [JObj [(''TTHC_MA'', JNum p), (''TOTAL_RECORDS'', JStr ''2500'')]])))
   = (Saved [JObj [(''TTHC_MA'', JNum 1), (''TOTAL_RECORDS'', JStr ''2500'')],
             JObj [(''TTHC_MA'', JNum 2), (''TOTAL_RECORDS'', JStr ''2500'')],
             JObj [(''TTHC_MA'', JNum 3), (''TOTAL_RECORDS'', JStr ''2500'')]],
      \<lparr>requested = [1, 2, 3],
       allTTHC = [JObj [(''TTHC_MA'', JNum 1), (''TOTAL_RECORDS'', JStr ''2500'')],
                  JObj [(''TTHC_MA'', JNum 2), (''TOTAL_RECORDS'', JStr ''2500'')],
                  JObj [(''TTHC_MA'', JNum 3), (''TOTAL_RECORDS'', JStr ''2500'')]]\<rparr>)"
  by code_simp

section \<open>Claims about a failed page inside a run\<close>












section \<open>Claims about repeated downloads\<close>




section \<open>The detail passes\<close>

lemma get_map_set: "get (JObj (map_set k v fs)) f = (if f = k then v else get (JObj fs) f)"
  by (simp add: map_of_map_set)




lemma mapM_length: "mapM f xs = Inr ys \<Longrightarrow> length ys = length xs"
  by (induction xs arbitrary: ys) (auto split: sum.splits)





lemma fetchHTML_sent [simp]: "snd (fetchHTML site sent url) = sent @ [url]"
  by (simp add: fetchHTML_def)



lemma length_details [simp]: "length (details extract site n ds) = length ds"
  by (induction ds arbitrary: n) simp_all






section \<open>Claims about a failed enrichment\<close>





end
